theory Spec2Isabelle
  imports Main "HOL-Library.Sublist" "HOL-Library.Char_ord" "HOL-Library.List_Lexorder"
    "HOL-Library.Multiset"
begin

section \<open>The etags table (db\_utils.py)\<close>

text \<open>
  One row of the SQLite table \<open>etags\<close> created by \<open>init_schema\<close>:
  \<open>url TEXT PRIMARY KEY, etag TEXT, last_checked TIMESTAMP, deleted INTEGER\<close>
  (0 = active, 1 = deleted). The table is the list of its rows; the primary key is the
  invariant \<open>distinct (map row_url t)\<close>.
\<close>

record etag_row =
  row_url :: string
  row_etag :: "string option"
  row_last_checked :: "string option"
  row_deleted :: int

type_synonym etags = "etag_row list"

text \<open>The row with a given URL, if the table has one.\<close>

definition row_of :: "etags \<Rightarrow> string \<Rightarrow> etag_row option" where
  "row_of t u = find (\<lambda>r. row_url r = u) t"

text \<open>
  A Python \<open>dict\<close> as an insertion-ordered association list: assigning to a key that
  is present replaces the value in place, assigning to a new key appends.
\<close>

fun dict_set :: "'k \<Rightarrow> 'v \<Rightarrow> ('k \<times> 'v) list \<Rightarrow> ('k \<times> 'v) list" where
  "dict_set k v [] = [(k, v)]"
| "dict_set k v (p # d) = (if fst p = k then (k, v) # d else p # dict_set k v d)"

definition py_dict :: "('k \<times> 'v) list \<Rightarrow> ('k \<times> 'v) list" where
  "py_dict kvs = fold (\<lambda>kv d. dict_set (fst kv) (snd kv) d) kvs []"

section \<open>Reconciliation (url\_scraper.py, update\_database\_from\_waf)\<close>

text \<open>\<open>INSERT OR IGNORE INTO etags (url, etag, last_checked, deleted) VALUES (?, NULL, NULL, 0)\<close>\<close>

definition new_row :: "string \<Rightarrow> etag_row" where
  "new_row u = \<lparr>row_url = u, row_etag = None, row_last_checked = None, row_deleted = 0\<rparr>"

definition insert_or_ignore :: "string \<Rightarrow> etags \<Rightarrow> etags" where
  "insert_or_ignore u t = (if u \<in> set (map row_url t) then t else t @ [new_row u])"

text \<open>\<open>UPDATE etags SET deleted=? WHERE url=?\<close>\<close>

definition set_deleted :: "int \<Rightarrow> string \<Rightarrow> etags \<Rightarrow> etags" where
  "set_deleted d u t = map (\<lambda>r. if row_url r = u then r\<lparr>row_deleted := d\<rparr> else r) t"

text \<open>
  The body of the loop \<open>for url in waf_urls & db_urls\<close>: a URL whose snapshot flag is 1
  is appended to \<open>reactivated\<close> and its row is set active.
\<close>

definition reactivate_step ::
  "(string \<times> int) list \<Rightarrow> string \<Rightarrow> string list \<times> etags \<Rightarrow> string list \<times> etags" where
  "reactivate_step db_records u acc =
     (if map_of db_records u = Some 1
      then (fst acc @ [u], set_deleted 0 u (snd acc))
      else acc)"

text \<open>
  \<open>update_database_from_waf\<close>. The sets \<open>db_urls\<close> and \<open>waf_urls\<close> are HOL sets;
  \<open>sorted(list(S))\<close> is \<open>sorted_list_of_set S\<close>. Iterating over a Python set visits its
  elements once each in an order fixed by the hash table, which the parameter \<open>iter\<close>
  stands for. The result is the triple \<open>(added, reactivated, deleted)\<close> and the table
  after the commit.
\<close>

definition update_database_from_waf ::
  "(string set \<Rightarrow> string list) \<Rightarrow> string list \<Rightarrow> etags
     \<Rightarrow> (string list \<times> string list \<times> string list) \<times> etags" where
  "update_database_from_waf iter current_urls t =
     (let db_records = py_dict (map (\<lambda>r. (row_url r, row_deleted r)) t);
          db_urls = set (map fst db_records);
          waf_urls = set current_urls;
          added = sorted_list_of_set (waf_urls - db_urls);
          deleted = sorted_list_of_set (db_urls - waf_urls);
          t1 = fold insert_or_ignore added t;
          (reactivated, t2) = fold (reactivate_step db_records) (iter (waf_urls \<inter> db_urls)) ([], t1);
          t3 = fold (set_deleted 1) deleted t2
      in ((added, reactivated, deleted), t3))"

text \<open>What is known of the order: every element of the set is visited exactly once.\<close>

definition set_iteration :: "(string set \<Rightarrow> string list) \<Rightarrow> bool" where
  "set_iteration iter \<longleftrightarrow> (\<forall>S. finite S \<longrightarrow> set (iter S) = S \<and> distinct (iter S))"

text \<open>
  Two iteration orders used to run the function on concrete tables: ascending, and
  descending (a hash order need not agree with the string order).
\<close>

definition ascending_iteration :: "string set \<Rightarrow> string list" where
  "ascending_iteration S = sorted_list_of_set S"

definition descending_iteration :: "string set \<Rightarrow> string list" where
  "descending_iteration S = rev (sorted_list_of_set S)"

text \<open>
  Example tables. \<open>scenario_etags\<close> holds an active row A that was never fetched and an
  active row B with indicator x1; \<open>removed_etags\<close> holds two rows that an earlier crawl
  marked deleted.
\<close>

definition scenario_etags :: etags where
  "scenario_etags =
     [\<lparr>row_url = ''https://h/A.xml'', row_etag = None, row_last_checked = None, row_deleted = 0\<rparr>,
      \<lparr>row_url = ''https://h/B.xml'', row_etag = Some ''x1'', row_last_checked = None, row_deleted = 0\<rparr>]"

definition removed_etags :: etags where
  "removed_etags =
     [\<lparr>row_url = ''https://h/a.xml'', row_etag = None, row_last_checked = None, row_deleted = 1\<rparr>,
      \<lparr>row_url = ''https://h/b.xml'', row_etag = None, row_last_checked = None, row_deleted = 1\<rparr>]"

section \<open>The orchestrator (pipeline\_runner.py)\<close>

definition STEPS :: "string list" where
  "STEPS = [''url_scraper'', ''metadata_scraper'', ''osim_meta'', ''cleanup_artifacts'']"

text \<open>
  \<open>run_step\<close> starts one module as a subprocess and returns its return code (1 when
  starting it raises). The subprocess acts on the world outside the orchestrator, so a
  step is a function from the module name and the world to the return code and the new
  world. The elapsed times are left out; \<open>timings\<close> keeps the names of the steps that ran.
\<close>

type_synonym 'w run_step = "string \<Rightarrow> 'w \<Rightarrow> int \<times> 'w"

text \<open>The body of \<open>for step in STEPS\<close>.\<close>

definition pipeline_step ::
  "'w run_step \<Rightarrow> string \<Rightarrow> string list \<times> string list \<times> 'w \<Rightarrow> string list \<times> string list \<times> 'w" where
  "pipeline_step run_step step st =
     (case st of (failures, timings, w) \<Rightarrow>
        (case run_step step w of (rc, w') \<Rightarrow>
           (if rc \<noteq> 0 then failures @ [step] else failures, timings @ [step], w')))"

text \<open>
  \<open>main\<close> of pipeline\_runner.py: the exit status is 1 (\<open>sys.exit(1)\<close>) when \<open>failures\<close>
  is not empty and 0 otherwise. The result is the exit status, the failures, the steps
  that ran, and the world.
\<close>

definition pipeline_runner_main :: "'w run_step \<Rightarrow> 'w \<Rightarrow> int \<times> string list \<times> string list \<times> 'w" where
  "pipeline_runner_main run_step w =
     (case fold (pipeline_step run_step) STEPS ([], [], w) of
        (failures, timings, w') \<Rightarrow> (if failures \<noteq> [] then 1 else 0, failures, timings, w'))"

text \<open>
  The return codes that a list of steps produces when each step runs in the world its
  predecessors left. This function is not part of the program; the properties of
  \<open>pipeline_runner_main\<close> are stated with it.
\<close>

fun step_codes :: "'w run_step \<Rightarrow> 'w \<Rightarrow> string list \<Rightarrow> int list" where
  "step_codes run_step w [] = []"
| "step_codes run_step w (s # ss) = fst (run_step s w) # step_codes run_step (snd (run_step s w)) ss"

text \<open>
  Example steps whose world is the log of the modules started: one where the crawl exits
  with status 2 and every other module with 0, and one where every module exits with 0.
\<close>

definition crawl_fails :: "(string list) run_step" where
  "crawl_fails m w = (if m = ''url_scraper'' then 2 else 0, w @ [m])"

definition all_succeed :: "(string list) run_step" where
  "all_succeed m w = (0, w @ [m])"

section \<open>The crawler's URL rules (url\_scraper.py, worker)\<close>










section \<open>Conditional fetch (metadata\_scraper.py)\<close>

subsection \<open>Configuration and small string functions\<close>

definition RETRIES :: nat where
  "RETRIES = 4"

definition HEADERS :: "(string \<times> string) list" where
  "HEADERS = [(''User-Agent'', ''TMF-Collection-Tool/2.0'')]"

text \<open>Decimal rendering of an integer, as an f-string does it.\<close>

fun str_nat :: "nat \<Rightarrow> string" where
  "str_nat n = (if n < 10 then [char_of (48 + n)] else str_nat (n div 10) @ [char_of (48 + n mod 10)])"

declare str_nat.simps [simp del]

definition str_int :: "int \<Rightarrow> string" where
  "str_int i = (if i < 0 then CHR ''-'' # str_nat (nat (- i)) else str_nat (nat i))"

text \<open>\<open>s.strip('"')\<close> removes the double quotes at both ends.\<close>

definition strip_quotes :: "string \<Rightarrow> string" where
  "strip_quotes s = rev (dropWhile (\<lambda>c. c = CHR 0x22) (rev (dropWhile (\<lambda>c. c = CHR 0x22) s)))"

text \<open>\<open>s.strip()\<close> removes the ASCII white space at both ends.\<close>

definition is_space :: "char \<Rightarrow> bool" where
  "is_space c \<longleftrightarrow> c \<in> set [CHR 0x09, CHR 0x0A, CHR 0x0B, CHR 0x0C, CHR 0x0D,
                           CHR 0x1C, CHR 0x1D, CHR 0x1E, CHR 0x1F, CHR 0x20]"

definition strip :: "string \<Rightarrow> string" where
  "strip s = rev (dropWhile is_space (rev (dropWhile is_space s)))"

subsection \<open>extract\_metadata\<close>

text \<open>
  A metadata record is a Python dict from field names to strings or \<open>None\<close>. The XML
  library is outside the repository: \<open>fromstring\<close> returns the tree or the message of the
  exception it raises, \<open>attrib_get\<close> reads an attribute of the root, \<open>xpath\<close> returns the
  strings an XPath expression selects.
\<close>

type_synonym metadata = "(string \<times> string option) list"

record 'tree lxml =
  fromstring :: "string \<Rightarrow> string + 'tree"
  attrib_get :: "'tree \<Rightarrow> string \<Rightarrow> string option"
  xpath :: "'tree \<Rightarrow> string \<Rightarrow> string list"

text \<open>The local function \<open>text\<close>: the first result, stripped, or \<open>None\<close>.\<close>

definition text_of :: "'tree lxml \<Rightarrow> 'tree \<Rightarrow> string \<Rightarrow> string option" where
  "text_of lx tree xp = (case xpath lx tree xp of [] \<Rightarrow> None | r # _ \<Rightarrow> Some (strip r))"

definition extract_metadata :: "'tree lxml \<Rightarrow> string \<Rightarrow> string \<Rightarrow> metadata" where
  "extract_metadata lx xml_bytes url =
     (case fromstring lx xml_bytes of
        Inl e \<Rightarrow> [(''source'', Some url), (''error'', Some (''Invalid XML: '' @ e))]
      | Inr tree \<Rightarrow>
          [(''source'', Some url),
           (''uuid'', attrib_get lx tree ''uuid''),
           (''fileIdentifier'', text_of lx tree
              (''//gmd:fileIdentifier/gco:CharacterString/text() | ''
               @ ''//gmd:fileIdentifier/gmx:Anchor/text()'')),
           (''title'', text_of lx tree ''//gmd:identificationInfo//gmd:citation//gmd:title/*/text()''),
           (''edition'', text_of lx tree
              ''//gmd:identificationInfo//gmd:citation//gmd:edition/gco:CharacterString/text()''),
           (''doi'', text_of lx tree
              (''//gmd:identifier//gmx:Anchor[contains(@xlink:href, '' @ [CHR 0x27] @ ''doi.org''
               @ [CHR 0x27] @ '')]/text()'')),
           (''dateStamp'', text_of lx tree
              ''//gmd:dateStamp/gco:DateTime/text() | //gmd:dateStamp/gco:Date/text()'')])"

text \<open>The value of the column \<open>source\<close> of a record or table row (\<open>None\<close> when missing).\<close>

definition source_of :: "metadata \<Rightarrow> string option" where
  "source_of m = (case map_of m ''source'' of Some v \<Rightarrow> v | None \<Rightarrow> None)"

subsection \<open>fetch\_conditional\<close>

text \<open>
  The dict that \<open>fetch_conditional\<close> returns. A key that the dict does not have is
  \<open>None\<close> here; \<open>res_etag\<close> is the value under the key \<open>etag\<close>, which every result has and
  which may itself be \<open>None\<close>.
\<close>

record fetch_result =
  res_url :: string
  res_etag :: "string option"
  res_changed :: "bool option"
  res_first_check :: "bool option"
  res_error :: "string option"
  res_metadata :: "metadata option"

text \<open>
  What one pass through the \<open>try\<close> block meets: an exception, or a response with its
  status, its \<open>ETag\<close> header if any, and its body.
\<close>

datatype attempt = Raises string | Response int "string option" string

text \<open>
  The environment of a run: the network (the outcome of the request for a URL with given
  headers at a given attempt number), the XML library, the clock read by the i-th call
  of \<open>update_etag_record\<close>, and the order in which the workers' results reach the shared
  result list.
\<close>

record 'tree env =
  session_get :: "string \<Rightarrow> (string \<times> string) list \<Rightarrow> nat \<Rightarrow> attempt"
  lxml_of :: "'tree lxml"
  now :: "nat \<Rightarrow> string"
  completion_order :: "fetch_result list \<Rightarrow> fetch_result list"

text \<open>\<open>headers = HEADERS.copy()\<close>, and \<open>If-None-Match\<close> when the indicator is a non-empty string.\<close>

definition request_headers :: "string option \<Rightarrow> (string \<times> string) list" where
  "request_headers etag =
     (case etag of
        None \<Rightarrow> HEADERS
      | Some e \<Rightarrow> if e \<noteq> [] then dict_set ''If-None-Match'' ([CHR 0x22] @ e @ [CHR 0x22]) HEADERS
                  else HEADERS)"

text \<open>The body of the \<open>async with\<close> block, for a response that arrived.\<close>

definition on_response :: "'tree env \<Rightarrow> string \<Rightarrow> string option \<Rightarrow> int \<Rightarrow> string option \<Rightarrow> string \<Rightarrow> fetch_result" where
  "on_response env url etag status etag_header body =
     (if status = 304 then
        \<lparr>res_url = url, res_etag = etag, res_changed = Some False,
         res_first_check = Some (etag = None), res_error = None, res_metadata = None\<rparr>
      else if status \<ge> 400 then
        \<lparr>res_url = url, res_etag = etag, res_changed = Some False,
         res_first_check = None, res_error = Some (''HTTP '' @ str_int status), res_metadata = None\<rparr>
      else
        \<lparr>res_url = url,
         res_etag = (case etag_header of
                       None \<Rightarrow> None
                     | Some h \<Rightarrow> if h \<noteq> [] then Some (strip_quotes h) else Some h),
         res_changed = Some True, res_first_check = None, res_error = None,
         res_metadata = Some (extract_metadata (lxml_of env) body url)\<rparr>)"

text \<open>
  The loop \<open>for attempt in range(1, RETRIES + 1)\<close> over the attempt numbers still to
  come. Besides the result, the function returns the number of requests it issued.
\<close>

fun fetch_attempts ::
  "'tree env \<Rightarrow> string \<Rightarrow> string option \<Rightarrow> (string \<times> string) list \<Rightarrow> nat list \<Rightarrow> fetch_result \<times> nat" where
  "fetch_attempts env url etag headers [] =
     (\<lparr>res_url = url, res_etag = etag, res_changed = None, res_first_check = None,
       res_error = Some ''Failed after retries'', res_metadata = None\<rparr>, 0)"
| "fetch_attempts env url etag headers (attempt # rest) =
     (case session_get env url headers attempt of
        Raises e \<Rightarrow>
          (case fetch_attempts env url etag headers rest of (r, n) \<Rightarrow> (r, Suc n))
      | Response status etag_header body \<Rightarrow>
          (on_response env url etag status etag_header body, 1))"

text \<open>The dict returned after the loop, as a shorthand for the statements below.\<close>

definition failed_result :: "string \<Rightarrow> string option \<Rightarrow> fetch_result" where
  "failed_result url etag =
     \<lparr>res_url = url, res_etag = etag, res_changed = None, res_first_check = None,
      res_error = Some ''Failed after retries'', res_metadata = None\<rparr>"

definition fetch_conditional :: "'tree env \<Rightarrow> string \<Rightarrow> string option \<Rightarrow> fetch_result \<times> nat" where
  "fetch_conditional env url etag =
     fetch_attempts env url etag (request_headers etag) [1..<RETRIES + 1]"

subsection \<open>The run: load, fetch, update, merge\<close>

text \<open>\<open>SELECT url, etag FROM etags WHERE deleted=0\<close>, turned into a dict.\<close>

definition load_active_etags :: "etags \<Rightarrow> (string \<times> string option) list" where
  "load_active_etags t = py_dict (map (\<lambda>r. (row_url r, row_etag r)) (filter (\<lambda>r. row_deleted r = 0) t))"

text \<open>\<open>UPDATE etags SET etag=?, last_checked=? WHERE url=?\<close> with the current time.\<close>

definition update_etag_record :: "string \<Rightarrow> string option \<Rightarrow> string \<Rightarrow> etags \<Rightarrow> etags" where
  "update_etag_record url etag timestamp t =
     map (\<lambda>r. if row_url r = url then r\<lparr>row_etag := etag, row_last_checked := Some timestamp\<rparr> else r) t"

text \<open>
  \<open>run_batched\<close>: every item of the dict is fetched once by one worker, and the results
  are appended to one list as the workers finish.
\<close>

definition run_batched :: "'tree env \<Rightarrow> (string \<times> string option) list \<Rightarrow> fetch_result list" where
  "run_batched env etag_map =
     completion_order env (map (\<lambda>item. fst (fetch_conditional env (fst item) (snd item))) etag_map)"

definition changed_results :: "fetch_result list \<Rightarrow> fetch_result list" where
  "changed_results results = filter (\<lambda>r. res_changed r = Some True) results"

definition unchanged_results :: "fetch_result list \<Rightarrow> fetch_result list" where
  "unchanged_results results = filter (\<lambda>r. res_changed r = Some False) results"

text \<open>The list \<open>errors\<close>, which \<open>main\<close> only counts for the printed summary.\<close>

definition error_results :: "fetch_result list \<Rightarrow> fetch_result list" where
  "error_results results = filter (\<lambda>r. res_error r \<noteq> None) results"

text \<open>The loop \<open>for r in changed + unchanged: update_etag_record(r["url"], r.get("etag"))\<close>.\<close>

fun update_records :: "'tree env \<Rightarrow> nat \<Rightarrow> fetch_result list \<Rightarrow> etags \<Rightarrow> etags" where
  "update_records env i [] t = t"
| "update_records env i (r # rs) t =
     update_records env (Suc i) rs (update_etag_record (res_url r) (res_etag r) (now env i) t)"

definition new_records :: "fetch_result list \<Rightarrow> metadata list" where
  "new_records results = List.map_filter res_metadata (changed_results results)"

text \<open>
  \<open>drop_duplicates(subset=["source"], keep="last")\<close> of pandas: a row is dropped when a
  later row has the same key; the rows kept stay in their order.
\<close>

fun drop_duplicates_last :: "('a \<Rightarrow> 'k) \<Rightarrow> 'a list \<Rightarrow> 'a list" where
  "drop_duplicates_last key [] = []"
| "drop_duplicates_last key (x # xs) =
     (if key x \<in> set (map key xs) then drop_duplicates_last key xs
      else x # drop_duplicates_last key xs)"

text \<open>
  The last block of \<open>main\<close>. The Parquet file is \<open>None\<close> when it does not exist and the
  list of its rows otherwise. A table is the list of the records it was built from:
  \<open>Table.from_pylist\<close>, \<open>concat_tables\<close> and the conversion to pandas and back keep one
  row per record, in order, with its \<open>source\<close>. How Arrow derives the columns of the
  table from the records is left out.
\<close>

definition merge_parquet :: "metadata list option \<Rightarrow> metadata list \<Rightarrow> metadata list option" where
  "merge_parquet parquet records =
     (if records \<noteq> [] then
        (case parquet of
           Some existing \<Rightarrow> Some (drop_duplicates_last source_of (existing @ records))
         | None \<Rightarrow> Some records)
      else parquet)"

text \<open>
  \<open>main\<close> of metadata\_scraper.py: the table and the Parquet file after the run, and the
  results.
\<close>

definition metadata_scraper_main ::
  "'tree env \<Rightarrow> etags \<Rightarrow> metadata list option \<Rightarrow> etags \<times> metadata list option \<times> fetch_result list" where
  "metadata_scraper_main env t parquet =
     (let etag_map = load_active_etags t;
          results = run_batched env etag_map;
          changed = changed_results results;
          unchanged = unchanged_results results
      in (update_records env 0 (changed @ unchanged) t,
          merge_parquet parquet (new_records results),
          results))"

text \<open>
  The workers' results reach the list in some order: the list is a permutation of the
  results in queue order.
\<close>

definition fair_completion :: "'tree env \<Rightarrow> bool" where
  "fair_completion env \<longleftrightarrow> (\<forall>rs. mset (completion_order env rs) = mset rs)"

text \<open>
  The row that comes last among the rows with a given key. This function is not part of
  the program; the merge is described with it.
\<close>

definition last_with_key :: "('a \<Rightarrow> 'k) \<Rightarrow> 'k \<Rightarrow> 'a list \<Rightarrow> 'a option" where
  "last_with_key key k rows = find (\<lambda>r. key r = k) (rev rows)"

subsection \<open>Example environments\<close>

definition example_lxml :: "unit lxml" where
  "example_lxml =
     \<lparr>fromstring = (\<lambda>b. if b = ''<doc/>'' then Inr () else Inl ''syntax error''),
      attrib_get = (\<lambda>tree name. None),
      xpath = (\<lambda>tree xp. [])\<rparr>"

definition example_env :: "(string \<Rightarrow> (string \<times> string) list \<Rightarrow> nat \<Rightarrow> attempt) \<Rightarrow> unit env" where
  "example_env net =
     \<lparr>session_get = net, lxml_of = example_lxml,
      now = (\<lambda>i. ''2026-01-01T00:00:0'' @ str_nat i),
      completion_order = (\<lambda>rs. rs)\<rparr>"

definition net_rejects :: "string \<Rightarrow> (string \<times> string) list \<Rightarrow> nat \<Rightarrow> attempt" where
  "net_rejects url headers attempt = Response 404 None []"

definition net_down :: "string \<Rightarrow> (string \<times> string) list \<Rightarrow> nat \<Rightarrow> attempt" where
  "net_down url headers attempt = Raises ''timeout''"

definition net_no_etag :: "string \<Rightarrow> (string \<times> string) list \<Rightarrow> nat \<Rightarrow> attempt" where
  "net_no_etag url headers attempt = Response 200 None ''<doc/>''"


definition tracked_row :: etag_row where
  "tracked_row =
     \<lparr>row_url = ''https://h/A.xml'', row_etag = Some ''x1'',
      row_last_checked = Some ''2025-12-31T00:00:00'', row_deleted = 0\<rparr>"

definition tracked_etags :: etags where
  "tracked_etags = [tracked_row]"

definition stale_parquet :: "metadata list" where
  "stale_parquet = [[(''source'', Some ''https://h/A.xml''), (''uuid'', Some ''old'')]]"


text \<open>The rows of the Parquet file, none when the file does not exist.\<close>

definition rows_of :: "metadata list option \<Rightarrow> metadata list" where
  "rows_of parquet = (case parquet of None \<Rightarrow> [] | Some existing \<Rightarrow> existing)"

section \<open>Properties of the reconciliation\<close>

lemma dict_set_fresh:
  "k \<notin> fst ` set d \<Longrightarrow> dict_set k v d = d @ [(k, v)]"
  by (induction d) auto

lemma fold_dict_set_distinct:
  "distinct (map fst (acc @ kvs)) \<Longrightarrow>
   fold (\<lambda>kv d. dict_set (fst kv) (snd kv) d) kvs acc = acc @ kvs"
proof (induction kvs arbitrary: acc)
  case Nil
  show ?case by simp
next
  case (Cons kv kvs)
  have fresh: "fst kv \<notin> fst ` set acc" using Cons.prems by auto
  have "distinct (map fst ((acc @ [kv]) @ kvs))" using Cons.prems by simp
  from Cons.IH [OF this] show ?case
    using dict_set_fresh [OF fresh, of "snd kv"] by simp
qed

lemma py_dict_distinct:
  "distinct (map fst kvs) \<Longrightarrow> py_dict kvs = kvs"
  using fold_dict_set_distinct [of "[]" kvs] by (simp add: py_dict_def)

lemma fst_dict_set: "fst ` set (dict_set k v d) = insert k (fst ` set d)"
  by (induction d) auto

lemma fold_dict_set_keys:
  "fst ` set (fold (\<lambda>kv d. dict_set (fst kv) (snd kv) d) kvs acc) = fst ` set acc \<union> fst ` set kvs"
  by (induction kvs arbitrary: acc) (auto simp: fst_dict_set)

lemma py_dict_keys: "set (map fst (py_dict kvs)) = set (map fst kvs)"
  using fold_dict_set_keys [of kvs "[]"] by (simp add: py_dict_def)

lemma fold_insert_or_ignore:
  "distinct xs \<Longrightarrow> set xs \<inter> set (map row_url t) = {} \<Longrightarrow>
   fold insert_or_ignore xs t = t @ map new_row xs"
proof (induction xs arbitrary: t)
  case Nil
  show ?case by simp
next
  case (Cons x xs)
  have step: "insert_or_ignore x t = t @ [new_row x]"
    using Cons.prems(2) by (auto simp: insert_or_ignore_def)
  have "set xs \<inter> set (map row_url (t @ [new_row x])) = {}"
    using Cons.prems by (auto simp: new_row_def)
  with Cons.IH [of "t @ [new_row x]"] Cons.prems(1) step show ?case by simp
qed

lemma fold_set_deleted:
  "fold (set_deleted d) xs t =
   map (\<lambda>r. if row_url r \<in> set xs then r\<lparr>row_deleted := d\<rparr> else r) t"
proof (induction xs arbitrary: t)
  case Nil
  show ?case by simp
next
  case (Cons x xs)
  show ?case
    unfolding fold_simps Cons.IH
    by (auto simp: set_deleted_def)
qed

lemma fold_reactivate_step:
  "fold (reactivate_step db) xs (acc, t) =
   (acc @ filter (\<lambda>u. map_of db u = Some 1) xs,
    fold (set_deleted 0) (filter (\<lambda>u. map_of db u = Some 1) xs) t)"
  by (induction xs arbitrary: acc t) (auto simp: reactivate_step_def)

lemma reconcile_unfold:
  assumes "distinct (map row_url t)"
  shows "update_database_from_waf iter current_urls t =
     (let K = set (map row_url t); C = set current_urls;
          added = sorted_list_of_set (C - K);
          deleted = sorted_list_of_set (K - C);
          reactivated = filter (\<lambda>u. map_of (map (\<lambda>r. (row_url r, row_deleted r)) t) u = Some 1) (iter (C \<inter> K))
      in ((added, reactivated, deleted),
          map (\<lambda>r. if row_url r \<in> K - C then r\<lparr>row_deleted := 1\<rparr> else r)
            (map (\<lambda>r. if row_url r \<in> set reactivated then r\<lparr>row_deleted := 0\<rparr> else r)
               (t @ map new_row added))))"
proof -
  have d: "distinct (map fst (map (\<lambda>r. (row_url r, row_deleted r)) t))"
    using assms by (simp add: comp_def)
  have k: "map fst (map (\<lambda>r. (row_url r, row_deleted r)) t) = map row_url t"
    by (simp add: comp_def)
  have ins: "fold insert_or_ignore (sorted_list_of_set (set current_urls - set (map row_url t))) t
      = t @ map new_row (sorted_list_of_set (set current_urls - set (map row_url t)))"
    by (rule fold_insert_or_ignore) auto
  show ?thesis
    unfolding update_database_from_waf_def py_dict_distinct [OF d] k Let_def
      fold_reactivate_step ins split_conv fold_set_deleted
    by simp
qed

lemma map_of_flags:
  assumes "distinct (map row_url t)"
  shows "map_of (map (\<lambda>r. (row_url r, row_deleted r)) t) u = Some d
         \<longleftrightarrow> (\<exists>r\<in>set t. row_url r = u \<and> row_deleted r = d)"
proof -
  have "distinct (map fst (map (\<lambda>r. (row_url r, row_deleted r)) t))"
    using assms by (simp add: comp_def)
  then have "map_of (map (\<lambda>r. (row_url r, row_deleted r)) t) u = Some d
      \<longleftrightarrow> (u, d) \<in> set (map (\<lambda>r. (row_url r, row_deleted r)) t)"
    by (rule map_of_eq_Some_iff)
  then show ?thesis by auto
qed

lemma ascending_iteration_ok: "set_iteration ascending_iteration"
  by (simp add: set_iteration_def ascending_iteration_def)

lemma descending_iteration_ok: "set_iteration descending_iteration"
  by (simp add: set_iteration_def descending_iteration_def)

text \<open>
  Claim C1. With K the URLs of the table (distinct, as \<open>url\<close> is the primary key) and C the
  crawl result, \<open>added\<close> lists C - K, \<open>deleted\<close> lists K - C, and \<open>reactivated\<close> lists the
  URLs of C \<inter> K whose row is inactive, that is, carries the flag \<open>deleted = 1\<close> (the only
  value other than 0 that the program writes). The parts added, K \<inter> C and
  deleted are pairwise disjoint (so are added, reactivated and deleted) and their union
  is K \<union> C.
\<close>

theorem reconcile_set_diff:
  assumes iter: "set_iteration iter"
    and key: "distinct (map row_url t)"
    and run: "update_database_from_waf iter current_urls t = ((added, reactivated, deleted), t')"
  shows "set added = set current_urls - set (map row_url t)
       \<and> set deleted = set (map row_url t) - set current_urls
       \<and> set reactivated =
           {u \<in> set current_urls \<inter> set (map row_url t). \<exists>r\<in>set t. row_url r = u \<and> row_deleted r = 1}
       \<and> set added \<inter> (set (map row_url t) \<inter> set current_urls) = {}
       \<and> (set (map row_url t) \<inter> set current_urls) \<inter> set deleted = {}
       \<and> set added \<inter> set deleted = {}
       \<and> set added \<inter> set reactivated = {}
       \<and> set reactivated \<inter> set deleted = {}
       \<and> set added \<union> (set (map row_url t) \<inter> set current_urls) \<union> set deleted
           = set (map row_url t) \<union> set current_urls"
proof -
  let ?K = "set (map row_url t)" and ?C = "set current_urls"
  have it: "set (iter (?C \<inter> ?K)) = ?C \<inter> ?K"
    using iter by (simp add: set_iteration_def)
  note e = run [unfolded reconcile_unfold [OF key] Let_def]
  have a: "added = sorted_list_of_set (?C - ?K)"
    and d: "deleted = sorted_list_of_set (?K - ?C)"
    and r: "reactivated = filter (\<lambda>u. map_of (map (\<lambda>r. (row_url r, row_deleted r)) t) u = Some 1)
              (iter (?C \<inter> ?K))"
    using e [THEN arg_cong [where f = "\<lambda>p. fst (fst p)"]]
      e [THEN arg_cong [where f = "\<lambda>p. snd (snd (fst p))"]]
      e [THEN arg_cong [where f = "\<lambda>p. fst (snd (fst p))"]]
    by (simp_all only: fst_conv snd_conv)
  have sa: "set added = ?C - ?K" unfolding a by simp
  have sd: "set deleted = ?K - ?C" unfolding d by simp
  have sr: "set reactivated = {u \<in> ?C \<inter> ?K. \<exists>r\<in>set t. row_url r = u \<and> row_deleted r = 1}"
    unfolding r using it by (auto simp: map_of_flags [OF key])
  show ?thesis unfolding sa sd sr by blast
qed

theorem reconcile_set_diff_witness:
  "set_iteration ascending_iteration
   \<and> distinct (map row_url scenario_etags)
   \<and> fst (update_database_from_waf ascending_iteration [''https://h/A.xml'', ''https://h/C.xml''] scenario_etags)
       = ([''https://h/C.xml''], [], [''https://h/B.xml''])
   \<and> set [''https://h/C.xml'']
       = set [''https://h/A.xml'', ''https://h/C.xml''] - set (map row_url scenario_etags)
   \<and> set [''https://h/B.xml'']
       = set (map row_url scenario_etags) - set [''https://h/A.xml'', ''https://h/C.xml'']"
proof -
  have key: "distinct (map row_url scenario_etags)"
    by (simp add: scenario_etags_def)
  have run: "update_database_from_waf ascending_iteration [''https://h/A.xml'', ''https://h/C.xml''] scenario_etags
      = (([''https://h/C.xml''], [], [''https://h/B.xml'']),
         snd (update_database_from_waf ascending_iteration [''https://h/A.xml'', ''https://h/C.xml''] scenario_etags))"
    by code_simp
  have run_fst: "fst (update_database_from_waf ascending_iteration [''https://h/A.xml'', ''https://h/C.xml''] scenario_etags)
      = ([''https://h/C.xml''], [], [''https://h/B.xml''])"
    by code_simp
  note sets = reconcile_set_diff [OF ascending_iteration_ok key run]
  show ?thesis
    by (rule conjI ascending_iteration_ok key run_fst sets [THEN conjunct1]
          sets [THEN conjunct2, THEN conjunct1])+
qed

text \<open>
  Claim C2, as stated, fails: a second run with the same crawl result does not report an
  empty deleted list. On a table with one active row and an empty crawl, the first run
  deactivates the row, and the second run lists it as deleted again.
\<close>

theorem reconcile_second_run_counterexample:
  "fst (update_database_from_waf ascending_iteration []
         (snd (update_database_from_waf ascending_iteration []
            [\<lparr>row_url = ''https://h/A.xml'', row_etag = None, row_last_checked = None, row_deleted = 0\<rparr>])))
   = ([], [], [''https://h/A.xml''])"
  by code_simp

text \<open>
  Claim C2, amended. After one run, a second run with the same crawl result reports no
  added and no reactivated URL, reports as deleted the same list as the first run (every
  known URL absent from the crawl, whether or not its row was already inactive), and
  leaves the table as the first run left it.
\<close>

theorem reconcile_twice:
  assumes iter: "set_iteration iter"
    and key: "distinct (map row_url t)"
    and first: "update_database_from_waf iter current_urls t = ((a1, r1, d1), t1)"
    and second: "update_database_from_waf iter current_urls t1 = ((a2, r2, d2), t2)"
  shows "a2 = [] \<and> r2 = [] \<and> d2 = d1
       \<and> d1 = sorted_list_of_set (set (map row_url t) - set current_urls)
       \<and> t2 = t1"
proof -
  let ?K = "set (map row_url t)" and ?C = "set current_urls"
  let ?flag = "\<lambda>t u. map_of (map (\<lambda>r. (row_url r, row_deleted r)) t) u"
  let ?R = "filter (\<lambda>u. ?flag t u = Some 1) (iter (?C \<inter> ?K))"
  let ?A = "sorted_list_of_set (?C - ?K)"
  define F :: "etag_row \<Rightarrow> etag_row" where "F = (\<lambda>r. if row_url r \<in> set ?R then r\<lparr>row_deleted := 0\<rparr> else r)"
  define G :: "etag_row \<Rightarrow> etag_row" where "G = (\<lambda>r. if row_url r \<in> ?K - ?C then r\<lparr>row_deleted := 1\<rparr> else r)"
  have F_url: "row_url (F r) = row_url r" for r by (simp add: F_def)
  have G_url: "row_url (G r) = row_url r" for r by (simp add: G_def)
  have F_in: "row_deleted (F r) = 0" if "row_url r \<in> set ?R" for r
    using that by (simp add: F_def)
  have F_out: "F r = r" if "row_url r \<notin> set ?R" for r
    using that by (auto simp: F_def)
  have G_in: "row_deleted (G r) = 1" if "row_url r \<in> ?K - ?C" for r
    using that by (simp add: G_def)
  have G_out: "G r = r" if "row_url r \<in> ?C" for r
    using that by (simp add: G_def)
  have t1: "t1 = map G (map F (t @ map new_row ?A))"
    and d1: "d1 = sorted_list_of_set (?K - ?C)"
    unfolding F_def G_def
    using first [unfolded reconcile_unfold [OF key] Let_def, THEN arg_cong [where f = snd]]
      first [unfolded reconcile_unfold [OF key] Let_def, THEN arg_cong [where f = "\<lambda>p. snd (snd (fst p))"]]
    by (simp_all only: fst_conv snd_conv)
  have urls1: "map row_url t1 = map row_url t @ ?A"
    unfolding t1 by (simp add: comp_def F_url G_url new_row_def)
  have key1: "distinct (map row_url t1)"
    unfolding urls1 using key by auto
  have K1: "set (map row_url t1) = ?K \<union> ?C"
    unfolding urls1 by auto
  have rows1: "\<exists>r0. (r0 \<in> set t \<or> r0 \<in> new_row ` (?C - ?K)) \<and> r = G (F r0)"
    if "r \<in> set t1" for r
    using that unfolding t1 by auto
  have flags_in: "row_deleted r \<noteq> 1" if "r \<in> set t1" "row_url r \<in> ?C" for r
  proof -
    from rows1 [OF that(1)] obtain r0
      where r0: "r0 \<in> set t \<or> r0 \<in> new_row ` (?C - ?K)" and r: "r = G (F r0)"
      by blast
    have u: "row_url r0 = row_url r" unfolding r by (simp add: F_url G_url)
    have rF: "r = F r0" unfolding r using that(2) u by (simp add: G_out F_url)
    show ?thesis
    proof (cases "row_url r0 \<in> set ?R")
      case True
      then show ?thesis unfolding rF by (simp add: F_in)
    next
      case False
      then have rr: "r = r0" unfolding rF by (rule F_out)
      from r0 show ?thesis
      proof
        assume in_t: "r0 \<in> set t"
        then have "row_url r0 \<in> ?K" by simp
        then have "row_url r0 \<in> ?C \<inter> ?K" using that(2) unfolding u by simp
        then have "row_url r0 \<in> set (iter (?C \<inter> ?K))"
          using iter by (simp add: set_iteration_def)
        with False have "?flag t (row_url r0) \<noteq> Some 1" by simp
        then have "row_deleted r0 \<noteq> 1"
          using in_t by (auto simp: map_of_flags [OF key])
        then show ?thesis unfolding rr .
      next
        assume "r0 \<in> new_row ` (?C - ?K)"
        then have "row_deleted r0 = 0" by (auto simp: new_row_def)
        then show ?thesis unfolding rr by simp
      qed
    qed
  qed
  have flags_out: "row_deleted r = 1" if "r \<in> set t1" "row_url r \<notin> ?C" for r
  proof -
    from rows1 [OF that(1)] obtain r0 where r: "r = G (F r0)" by blast
    have "row_url r \<in> set (map row_url t1)" using that(1) by simp
    then have "row_url r \<in> ?K \<union> ?C" unfolding K1 .
    with that(2) have "row_url (F r0) \<in> ?K - ?C" unfolding r by (simp add: G_url)
    then show ?thesis unfolding r by (rule G_in)
  qed
  have R2: "filter (\<lambda>u. ?flag t1 u = Some 1) (iter (?C \<inter> set (map row_url t1))) = []"
  proof -
    have "set (iter (?C \<inter> set (map row_url t1))) = ?C \<inter> set (map row_url t1)"
      using iter by (simp add: set_iteration_def)
    then have "\<forall>u\<in>set (iter (?C \<inter> set (map row_url t1))). ?flag t1 u \<noteq> Some 1"
      using flags_in by (auto simp: map_of_flags [OF key1])
    then show ?thesis by (simp add: filter_empty_conv)
  qed
  have C1: "?C - set (map row_url t1) = {}" and D1: "set (map row_url t1) - ?C = ?K - ?C"
    unfolding K1 by auto
  have same: "map (\<lambda>r. if row_url r \<in> ?K - ?C then r\<lparr>row_deleted := 1\<rparr> else r) t1 = t1"
  proof (rule map_idI)
    fix r assume "r \<in> set t1"
    then show "(if row_url r \<in> ?K - ?C then r\<lparr>row_deleted := 1\<rparr> else r) = r"
      using flags_out [of r] by auto
  qed
  note e2 = second [unfolded reconcile_unfold [OF key1] Let_def R2 C1 D1]
  have "a2 = []" using e2 [THEN arg_cong [where f = "\<lambda>p. fst (fst p)"]] by simp
  moreover have "r2 = []" using e2 [THEN arg_cong [where f = "\<lambda>p. fst (snd (fst p))"]] by simp
  moreover have "d2 = sorted_list_of_set (?K - ?C)"
    using e2 [THEN arg_cong [where f = "\<lambda>p. snd (snd (fst p))"]] by (simp only: fst_conv snd_conv)
  moreover have "t2 = t1"
    using e2 [THEN arg_cong [where f = snd]] same by simp
  ultimately show ?thesis using d1 by simp
qed

theorem reconcile_twice_witness:
  "set_iteration descending_iteration
   \<and> distinct (map row_url scenario_etags)
   \<and> fst (update_database_from_waf descending_iteration [''https://h/A.xml'', ''https://h/C.xml'']
        (snd (update_database_from_waf descending_iteration [''https://h/A.xml'', ''https://h/C.xml''] scenario_etags)))
      = ([], [], [''https://h/B.xml''])
   \<and> snd (update_database_from_waf descending_iteration [''https://h/A.xml'', ''https://h/C.xml'']
        (snd (update_database_from_waf descending_iteration [''https://h/A.xml'', ''https://h/C.xml''] scenario_etags)))
      = snd (update_database_from_waf descending_iteration [''https://h/A.xml'', ''https://h/C.xml''] scenario_etags)"
proof -
  let ?C = "[''https://h/A.xml'', ''https://h/C.xml'']"
  let ?t1 = "snd (update_database_from_waf descending_iteration ?C scenario_etags)"
  let ?t2 = "snd (update_database_from_waf descending_iteration ?C ?t1)"
  have key: "distinct (map row_url scenario_etags)"
    by (simp add: scenario_etags_def)
  have first: "update_database_from_waf descending_iteration ?C scenario_etags
      = (([''https://h/C.xml''], [], [''https://h/B.xml'']), ?t1)"
    by code_simp
  obtain a2 r2 d2 t2 where second: "update_database_from_waf descending_iteration ?C ?t1 = ((a2, r2, d2), t2)"
    by (metis prod.exhaust)
  note twice = reconcile_twice [OF descending_iteration_ok key first second]
  have a2: "a2 = []" and r2: "r2 = []" and d2: "d2 = [''https://h/B.xml'']" and t2: "t2 = ?t1"
    using twice by simp_all
  have res: "fst (update_database_from_waf descending_iteration ?C ?t1) = ([], [], [''https://h/B.xml''])"
    using second a2 r2 d2 by simp
  have tab: "snd (update_database_from_waf descending_iteration ?C ?t1) = ?t1"
    using second t2 by simp
  show ?thesis
    by (rule conjI descending_iteration_ok key res tab)+
qed

text \<open>
  Claim C7 fails on the code for the reactivated list: \<open>added\<close> and \<open>deleted\<close> are built
  with \<open>sorted\<close>, but \<open>reactivated\<close> is appended to in the iteration order of the set
  \<open>waf_urls & db_urls\<close>. When that order visits b.xml before a.xml, the list returned is
  not sorted.
\<close>

theorem reconcile_reactivated_unsorted:
  "fst (update_database_from_waf descending_iteration [''https://h/a.xml'', ''https://h/b.xml''] removed_etags)
     = ([], [''https://h/b.xml'', ''https://h/a.xml''], [])
   \<and> \<not> sorted [''https://h/b.xml'', ''https://h/a.xml'']"
  by code_simp

lemma reconcile_added_deleted_sorted:
  "sorted (fst (fst (update_database_from_waf iter current_urls t)))
   \<and> sorted (snd (snd (fst (update_database_from_waf iter current_urls t))))"
  by (simp add: update_database_from_waf_def Let_def split_beta)

section \<open>Properties of the orchestrator\<close>

lemma pipeline_fold:
  "fold (pipeline_step run_step) steps (failures, timings, w) = (fs, ts, w') \<Longrightarrow>
   ts = timings @ steps
   \<and> fs = failures @ map fst (filter (\<lambda>p. snd p \<noteq> 0) (zip steps (step_codes run_step w steps)))"
proof (induction steps arbitrary: failures timings w)
  case Nil
  then show ?case by simp
next
  case (Cons s steps)
  obtain rc w1 where rs: "run_step s w = (rc, w1)" by (cases "run_step s w")
  have step: "pipeline_step run_step s (failures, timings, w)
      = (if rc \<noteq> 0 then failures @ [s] else failures, timings @ [s], w1)"
    by (simp add: pipeline_step_def rs)
  from Cons.prems have "fold (pipeline_step run_step) steps
      (if rc \<noteq> 0 then failures @ [s] else failures, timings @ [s], w1) = (fs, ts, w')"
    by (simp only: fold_simps step)
  from Cons.IH [OF this] show ?case by (simp add: rs)
qed

text \<open>
  Claim C5, as stated, fails: the orchestrator does not stop at the first failing phase.
  When the crawl exits with status 2, the three later modules are still started, and the
  exit status is 1.
\<close>

theorem pipeline_keeps_running_counterexample:
  "pipeline_runner_main crawl_fails []
     = (1, [''url_scraper''],
        [''url_scraper'', ''metadata_scraper'', ''osim_meta'', ''cleanup_artifacts''],
        [''url_scraper'', ''metadata_scraper'', ''osim_meta'', ''cleanup_artifacts''])"
  by code_simp

text \<open>
  Claim C5, amended. The orchestrator runs all four phases in the fixed order crawl,
  fetch, enrichment, retention cleanup, whatever their exit statuses are; it collects
  the phases whose status is nonzero, and its own exit status is 0 exactly when every
  phase returned 0 (and 1 otherwise).
\<close>

theorem pipeline_runs_every_step:
  assumes "pipeline_runner_main run_step w = (status, failures, timings, w')"
  shows "timings = STEPS
       \<and> failures = map fst (filter (\<lambda>p. snd p \<noteq> 0) (zip STEPS (step_codes run_step w STEPS)))
       \<and> (status = 0 \<longleftrightarrow> (\<forall>rc\<in>set (step_codes run_step w STEPS). rc = 0))
       \<and> (status = 0 \<or> status = 1)"
proof -
  obtain fs ts w1 where f: "fold (pipeline_step run_step) STEPS ([], [], w) = (fs, ts, w1)"
    by (metis prod.exhaust)
  from pipeline_fold [OF f]
  have ts: "ts = STEPS"
    and fs: "fs = map fst (filter (\<lambda>p. snd p \<noteq> 0) (zip STEPS (step_codes run_step w STEPS)))"
    by simp_all
  have len: "length (step_codes run_step w steps) = length steps" for steps
    by (induction steps arbitrary: w) simp_all
  have "map snd (zip STEPS (step_codes run_step w STEPS)) = step_codes run_step w STEPS"
    by (rule map_snd_zip) (simp add: len)
  then have "set (step_codes run_step w STEPS) = snd ` set (zip STEPS (step_codes run_step w STEPS))"
    by (metis set_map)
  then have none: "fs = [] \<longleftrightarrow> (\<forall>rc\<in>set (step_codes run_step w STEPS). rc = 0)"
    unfolding fs by (simp add: filter_empty_conv)
  from assms have "(if fs \<noteq> [] then 1 else 0) = status \<and> fs = failures \<and> ts = timings"
    by (auto simp: pipeline_runner_main_def f split: if_splits)
  then have st: "status = (if fs \<noteq> [] then 1 else 0)" and "failures = fs" "timings = ts"
    by auto
  with ts fs none show ?thesis by auto
qed

theorem pipeline_runs_every_step_witness:
  "pipeline_runner_main all_succeed [] = (0, [], STEPS, STEPS)
   \<and> [] = map fst (filter (\<lambda>p. snd p \<noteq> 0) (zip STEPS (step_codes all_succeed [] STEPS)))"
proof -
  have run: "pipeline_runner_main all_succeed [] = (0, [], STEPS, STEPS)"
    by code_simp
  note all = pipeline_runs_every_step [OF run]
  from run all [THEN conjunct2, THEN conjunct1] show ?thesis by (rule conjI)
qed

section \<open>Properties of the crawler's URL rules\<close>





section \<open>Properties of the conditional fetch\<close>

subsection \<open>The retry loop\<close>

lemma fetch_attempts_all_raise:
  assumes "\<forall>a\<in>set as. \<exists>e. session_get env url headers a = Raises e"
  shows "fetch_attempts env url etag headers as = (failed_result url etag, length as)"
  using assms
proof (induction as)
  case Nil
  show ?case by (simp add: failed_result_def)
next
  case (Cons a as)
  from Cons.prems obtain e where e: "session_get env url headers a = Raises e" by auto
  from Cons.prems have "\<forall>a\<in>set as. \<exists>e. session_get env url headers a = Raises e" by simp
  from Cons.IH [OF this] show ?case by (simp add: e)
qed

lemma fetch_attempts_first_response:
  assumes "\<forall>a\<in>set pre. \<exists>e. session_get env url headers a = Raises e"
    and "session_get env url headers k = Response status etag_header body"
  shows "fetch_attempts env url etag headers (pre @ k # post)
       = (on_response env url etag status etag_header body, Suc (length pre))"
  using assms(1)
proof (induction pre)
  case Nil
  show ?case by (simp add: assms(2))
next
  case (Cons a pre)
  from Cons.prems obtain e where e: "session_get env url headers a = Raises e" by auto
  from Cons.prems have "\<forall>a\<in>set pre. \<exists>e. session_get env url headers a = Raises e" by simp
  from Cons.IH [OF this] show ?case by (simp add: e)
qed

lemma attempts_split:
  assumes "1 \<le> k" and "k \<le> RETRIES"
  shows "[1..<RETRIES + 1] = [1..<k] @ k # [Suc k..<RETRIES + 1]"
proof -
  have "[1..<k + (RETRIES + 1 - k)] = [1..<k] @ [k..<k + (RETRIES + 1 - k)]"
    using assms(1) by (rule upt_add_eq_append)
  moreover have "k + (RETRIES + 1 - k) = RETRIES + 1" using assms(2) by simp
  moreover have "[k..<RETRIES + 1] = k # [Suc k..<RETRIES + 1]"
    using assms(2) by (simp add: upt_conv_Cons)
  ultimately show ?thesis by simp
qed

lemma fetch_conditional_all_raise:
  assumes "\<forall>k. 1 \<le> k \<and> k \<le> RETRIES \<longrightarrow> (\<exists>e. session_get env url (request_headers etag) k = Raises e)"
  shows "fetch_conditional env url etag = (failed_result url etag, RETRIES)"
proof -
  have "\<forall>a\<in>set [1..<RETRIES + 1]. \<exists>e. session_get env url (request_headers etag) a = Raises e"
    using assms by auto
  from fetch_attempts_all_raise [OF this, of etag] show ?thesis
    by (simp add: fetch_conditional_def)
qed

lemma fetch_conditional_first_response:
  assumes "1 \<le> k" and "k \<le> RETRIES"
    and "\<forall>j. 1 \<le> j \<and> j < k \<longrightarrow> (\<exists>e. session_get env url (request_headers etag) j = Raises e)"
    and "session_get env url (request_headers etag) k = Response status etag_header body"
  shows "fetch_conditional env url etag = (on_response env url etag status etag_header body, k)"
proof -
  have "\<forall>a\<in>set [1..<k]. \<exists>e. session_get env url (request_headers etag) a = Raises e"
    using assms(3) by auto
  from fetch_attempts_first_response [OF this assms(4), of etag "[Suc k..<RETRIES + 1]"]
  show ?thesis
    unfolding fetch_conditional_def attempts_split [OF assms(1,2)]
    using assms(1) by simp
qed

lemma fetch_attempts_url:
  "res_url (fst (fetch_attempts env url etag headers as)) = url"
  by (induction as) (auto simp: on_response_def split: attempt.splits prod.splits)

lemma fetch_conditional_url:
  "res_url (fst (fetch_conditional env url etag)) = url"
  by (simp add: fetch_conditional_def fetch_attempts_url)

lemma source_of_extract_metadata:
  "source_of (extract_metadata lx xml_bytes url) = Some url"
  by (simp add: source_of_def extract_metadata_def split: sum.splits)

lemma fetch_attempts_source:
  "res_metadata (fst (fetch_attempts env url etag headers as)) = Some m \<Longrightarrow> source_of m = Some url"
  by (induction as)
    (auto simp: on_response_def source_of_extract_metadata split: attempt.splits prod.splits if_splits)

lemma fetch_conditional_source:
  "res_metadata (fst (fetch_conditional env url etag)) = Some m \<Longrightarrow> source_of m = Some url"
  unfolding fetch_conditional_def by (rule fetch_attempts_source)

subsection \<open>The table after the updates\<close>

lemma row_of_Some:
  "row_of t u = Some row \<Longrightarrow> row \<in> set t \<and> row_url row = u"
  by (auto simp: row_of_def find_Some_iff in_set_conv_nth)

lemma row_of_update_etag_record:
  "row_of (update_etag_record v e ts t) u =
     (if u = v then map_option (\<lambda>row. row\<lparr>row_etag := e, row_last_checked := Some ts\<rparr>) (row_of t u)
      else row_of t u)"
  by (induction t) (auto simp: row_of_def update_etag_record_def)

lemma urls_update_etag_record:
  "map row_url (update_etag_record v e ts t) = map row_url t"
  by (induction t) (auto simp: update_etag_record_def)

lemma urls_update_records:
  "map row_url (update_records env i rs t) = map row_url t"
  by (induction rs arbitrary: i t) (simp_all add: urls_update_etag_record)

lemma row_of_update_records_other:
  "u \<notin> set (map res_url rs) \<Longrightarrow> row_of (update_records env i rs t) u = row_of t u"
  by (induction rs arbitrary: i t) (auto simp: row_of_update_etag_record)

lemma row_of_update_records:
  assumes "distinct (map res_url rs)" and "r \<in> set rs"
  shows "\<exists>k. row_of (update_records env i rs t) (res_url r) =
           map_option (\<lambda>row. row\<lparr>row_etag := res_etag r, row_last_checked := Some (now env k)\<rparr>)
             (row_of t (res_url r))"
  using assms
proof (induction rs arbitrary: i t)
  case Nil
  then show ?case by simp
next
  case (Cons x rs)
  show ?case
  proof (cases "r = x")
    case True
    have "res_url x \<notin> set (map res_url rs)" using Cons.prems(1) by simp
    then have "row_of (update_records env (Suc i) rs
          (update_etag_record (res_url x) (res_etag x) (now env i) t)) (res_url x)
        = row_of (update_etag_record (res_url x) (res_etag x) (now env i) t) (res_url x)"
      by (rule row_of_update_records_other)
    then show ?thesis
      unfolding True by (auto simp: row_of_update_etag_record)
  next
    case False
    with Cons.prems have in_rs: "r \<in> set rs" and d: "distinct (map res_url rs)"
      and nx: "res_url x \<notin> res_url ` set rs" by auto
    have ne: "res_url r \<noteq> res_url x"
    proof
      assume "res_url r = res_url x"
      then have "res_url x \<in> res_url ` set rs" using in_rs by (metis imageI)
      with nx show False ..
    qed
    from Cons.IH [OF d in_rs, of "Suc i" "update_etag_record (res_url x) (res_etag x) (now env i) t"]
    show ?thesis using ne by (simp add: row_of_update_etag_record)
  qed
qed

subsection \<open>The results of a run\<close>

lemma load_active_etags_rows:
  assumes "distinct (map row_url t)"
  shows "load_active_etags t = map (\<lambda>r. (row_url r, row_etag r)) (filter (\<lambda>r. row_deleted r = 0) t)"
proof -
  have "distinct (map row_url (filter (\<lambda>r. row_deleted r = 0) t))"
    using assms by (rule distinct_map_filter)
  then have "distinct (map fst (map (\<lambda>r. (row_url r, row_etag r)) (filter (\<lambda>r. row_deleted r = 0) t)))"
    by (simp add: comp_def)
  then show ?thesis unfolding load_active_etags_def by (rule py_dict_distinct)
qed

lemma load_active_etags_keys:
  assumes "distinct (map row_url t)"
  shows "distinct (map fst (load_active_etags t))"
proof -
  have "distinct (map row_url (filter (\<lambda>r. row_deleted r = 0) t))"
    using assms by (rule distinct_map_filter)
  then show ?thesis
    unfolding load_active_etags_rows [OF assms] by (simp add: comp_def)
qed

lemma load_active_etags_item:
  assumes "distinct (map row_url t)" and "row_of t u = Some row" and "row_deleted row = 0"
  shows "(u, row_etag row) \<in> set (load_active_etags t)"
proof -
  from row_of_Some [OF assms(2)] have "row \<in> set t" and "row_url row = u" by simp_all
  with assms(3) show ?thesis
    unfolding load_active_etags_rows [OF assms(1)] by force
qed

lemma run_batched_urls:
  assumes "fair_completion env"
  shows "mset (map res_url (run_batched env etag_map)) = mset (map fst etag_map)"
proof -
  let ?rs = "map (\<lambda>item. fst (fetch_conditional env (fst item) (snd item))) etag_map"
  have "mset (completion_order env ?rs) = mset ?rs"
    using assms by (simp add: fair_completion_def)
  then have "image_mset res_url (mset (completion_order env ?rs)) = image_mset res_url (mset ?rs)"
    by (rule arg_cong)
  then have perm: "mset (map res_url (completion_order env ?rs)) = mset (map res_url ?rs)"
    by (simp only: mset_map)
  have urls: "map res_url ?rs = map fst etag_map"
    by (simp add: comp_def fetch_conditional_url)
  show ?thesis unfolding run_batched_def using perm [unfolded urls] .
qed

lemma run_batched_distinct:
  assumes "fair_completion env" and "distinct (map fst etag_map)"
  shows "distinct (map res_url (run_batched env etag_map))"
  using mset_eq_imp_distinct_iff [OF run_batched_urls [OF assms(1), of etag_map]] assms(2)
  by simp

lemma run_batched_set:
  assumes "fair_completion env"
  shows "set (run_batched env etag_map)
       = (\<lambda>item. fst (fetch_conditional env (fst item) (snd item))) ` set etag_map"
proof -
  have "mset (run_batched env etag_map)
      = mset (map (\<lambda>item. fst (fetch_conditional env (fst item) (snd item))) etag_map)"
    using assms by (simp add: fair_completion_def run_batched_def)
  from mset_eq_setD [OF this] show ?thesis by simp
qed

lemma outside_image:
  "f x \<notin> f ` A \<Longrightarrow> y \<in> A \<Longrightarrow> f y \<noteq> f x"
  by (metis imageI)

lemma only_result_for_url:
  assumes "distinct (map res_url rs)" and "r \<in> set rs"
  shows "filter (\<lambda>x. res_url x = res_url r) rs = [r]"
  using assms
proof (induction rs)
  case Nil
  then show ?case by simp
next
  case (Cons x rs)
  show ?case
  proof (cases "r = x")
    case True
    have "res_url x \<notin> res_url ` set rs" using Cons.prems(1) by simp
    then have "\<forall>y\<in>set rs. res_url y \<noteq> res_url x"
      by (blast dest: outside_image)
    then have "filter (\<lambda>y. res_url y = res_url x) rs = []"
      by (simp add: filter_empty_conv)
    then show ?thesis unfolding True by simp
  next
    case False
    with Cons.prems have in_rs: "r \<in> set rs" and d: "distinct (map res_url rs)"
      and nx: "res_url x \<notin> res_url ` set rs" by auto
    have ne: "res_url x \<noteq> res_url r"
      using outside_image [OF nx in_rs] by simp
    from Cons.IH [OF d in_rs] ne show ?thesis by simp
  qed
qed

lemma updated_results_distinct:
  assumes "distinct (map res_url rs)"
  shows "distinct (map res_url (changed_results rs @ unchanged_results rs))"
proof -
  have inj: "inj_on res_url (set rs)" and d: "distinct rs"
    using assms by (simp_all add: distinct_map)
  have c: "distinct (map res_url (changed_results rs))"
    and n: "distinct (map res_url (unchanged_results rs))"
    unfolding changed_results_def unchanged_results_def
    using assms by (rule distinct_map_filter)+
  have "res_url ` set (changed_results rs) \<inter> res_url ` set (unchanged_results rs) = {}"
  proof (rule ccontr)
    assume "res_url ` set (changed_results rs) \<inter> res_url ` set (unchanged_results rs) \<noteq> {}"
    then obtain x y where x: "x \<in> set rs" "res_changed x = Some True"
      and y: "y \<in> set rs" "res_changed y = Some False" and xy: "res_url x = res_url y"
      by (auto simp: changed_results_def unchanged_results_def)
    from inj xy x(1) y(1) have "x = y" by (rule inj_onD)
    with x(2) y(2) show False by simp
  qed
  with c n show ?thesis by simp
qed

lemma new_records_sources:
  assumes "fair_completion env"
  shows "map source_of (new_records (run_batched env etag_map))
       = map (\<lambda>r. Some (res_url r))
           (filter (\<lambda>r. res_metadata r \<noteq> None) (changed_results (run_batched env etag_map)))"
proof -
  have src: "source_of (the (res_metadata r)) = Some (res_url r)"
    if "r \<in> set (run_batched env etag_map)" and "res_metadata r \<noteq> None" for r
  proof -
    from that(1) obtain item where r: "r = fst (fetch_conditional env (fst item) (snd item))"
      unfolding run_batched_set [OF assms] by blast
    from that(2) obtain m where m: "res_metadata r = Some m" by auto
    have "res_metadata (fst (fetch_conditional env (fst item) (snd item))) = Some m"
      using m unfolding r .
    then have "source_of m = Some (fst item)" by (rule fetch_conditional_source)
    moreover have "res_url r = fst item" unfolding r by (rule fetch_conditional_url)
    ultimately show ?thesis by (simp add: m)
  qed
  show ?thesis
    unfolding new_records_def map_filter_def
    by (auto simp: changed_results_def src)
qed

lemma distinct_map_Some:
  "distinct xs \<Longrightarrow> distinct (map Some xs)"
  by (simp add: distinct_map inj_on_def)

lemma new_records_distinct:
  assumes "fair_completion env" and "distinct (map fst etag_map)"
  shows "distinct (map source_of (new_records (run_batched env etag_map)))"
proof -
  let ?rs = "filter (\<lambda>r. res_metadata r \<noteq> None) (changed_results (run_batched env etag_map))"
  have "distinct (map res_url (run_batched env etag_map))"
    using assms by (rule run_batched_distinct)
  then have "distinct (map res_url ?rs)"
    unfolding changed_results_def by (intro distinct_map_filter)
  then have "distinct (map Some (map res_url ?rs))"
    by (rule distinct_map_Some)
  then show ?thesis
    unfolding new_records_sources [OF assms(1)] by (simp add: comp_def)
qed

lemma in_map_filter:
  "x \<in> set xs \<Longrightarrow> f x = Some y \<Longrightarrow> y \<in> set (List.map_filter f xs)"
  by (induction xs) (auto simp: map_filter_simps split: option.splits)

text \<open>What a run does with one active URL of the table.\<close>

lemma run_on_active_url:
  assumes fair: "fair_completion env"
    and key: "distinct (map row_url t)"
    and row: "row_of t u = Some row"
    and active: "row_deleted row = 0"
    and run: "metadata_scraper_main env t parquet = (t', parquet', results)"
    and r: "r = fst (fetch_conditional env u (row_etag row))"
  shows "filter (\<lambda>x. res_url x = u) results = [r]"
    and "res_changed r = None \<Longrightarrow> row_of t' u = Some row"
    and "res_changed r \<noteq> None \<Longrightarrow>
           \<exists>i. row_of t' u = Some (row\<lparr>row_etag := res_etag r, row_last_checked := Some (now env i)\<rparr>)"
    and "res_changed r = Some True \<Longrightarrow> res_metadata r = Some m \<Longrightarrow> m \<in> set (new_records results)"
    and "parquet' = merge_parquet parquet (new_records results)"
    and "results = run_batched env (load_active_etags t)"
proof -
  note e = run [unfolded metadata_scraper_main_def Let_def]
  have res: "results = run_batched env (load_active_etags t)"
    using e [THEN arg_cong [where f = "\<lambda>p. snd (snd p)"]] by simp
  have t': "t' = update_records env 0 (changed_results results @ unchanged_results results) t"
    unfolding res using e [THEN arg_cong [where f = fst]] by simp
  have p': "parquet' = merge_parquet parquet (new_records results)"
    unfolding res using e [THEN arg_cong [where f = "\<lambda>p. fst (snd p)"]] by simp
  have url: "res_url r = u" unfolding r by (rule fetch_conditional_url)
  have d: "distinct (map res_url results)"
    unfolding res using fair load_active_etags_keys [OF key] by (rule run_batched_distinct)
  have "(u, row_etag row) \<in> set (load_active_etags t)"
    using key row active by (rule load_active_etags_item)
  then have "fst (fetch_conditional env (fst (u, row_etag row)) (snd (u, row_etag row)))
      \<in> (\<lambda>item. fst (fetch_conditional env (fst item) (snd item))) ` set (load_active_etags t)"
    by (rule imageI)
  then have in_res: "r \<in> set results"
    unfolding res run_batched_set [OF fair] r by simp
  show "filter (\<lambda>x. res_url x = u) results = [r]"
    using only_result_for_url [OF d in_res] unfolding url .
  show "parquet' = merge_parquet parquet (new_records results)" by (rule p')
  show "results = run_batched env (load_active_etags t)" by (rule res)
  let ?ups = "changed_results results @ unchanged_results results"
  have du: "distinct (map res_url ?ups)" using d by (rule updated_results_distinct)
  show "row_of t' u = Some row" if none: "res_changed r = None"
  proof -
    have "u \<notin> set (map res_url ?ups)"
    proof
      assume "u \<in> set (map res_url ?ups)"
      then obtain x where x: "x \<in> set results" "res_url x = u" "res_changed x \<noteq> None"
        by (auto simp: changed_results_def unchanged_results_def)
      from x(1,2) have "x \<in> set (filter (\<lambda>x. res_url x = u) results)" by simp
      then have "x = r"
        using only_result_for_url [OF d in_res] unfolding url by simp
      with x(3) none show False by simp
    qed
    then have "row_of t' u = row_of t u"
      unfolding t' by (rule row_of_update_records_other)
    with row show ?thesis by simp
  qed
  show "\<exists>i. row_of t' u = Some (row\<lparr>row_etag := res_etag r, row_last_checked := Some (now env i)\<rparr>)"
    if some: "res_changed r \<noteq> None"
  proof -
    from some obtain b where "res_changed r = Some b" by auto
    then have "r \<in> set ?ups"
      using in_res by (cases b) (simp_all add: changed_results_def unchanged_results_def)
    from row_of_update_records [OF du this, of env 0 t]
    obtain i where "row_of t' (res_url r) =
        map_option (\<lambda>row. row\<lparr>row_etag := res_etag r, row_last_checked := Some (now env i)\<rparr>)
          (row_of t (res_url r))"
      unfolding t' by blast
    then have "row_of t' u = Some (row\<lparr>row_etag := res_etag r, row_last_checked := Some (now env i)\<rparr>)"
      unfolding url row by (simp only: option.map)
    then show ?thesis by (rule exI)
  qed
  show "m \<in> set (new_records results)"
    if "res_changed r = Some True" and "res_metadata r = Some m"
  proof -
    from that(1) in_res have "r \<in> set (changed_results results)"
      by (simp add: changed_results_def)
    from in_map_filter [where f = res_metadata, OF this that(2)] show ?thesis
      by (simp only: new_records_def)
  qed
qed

subsection \<open>Dropping duplicates\<close>

lemma drop_duplicates_last_keys:
  "set (map key (drop_duplicates_last key xs)) = set (map key xs)"
  by (induction xs) auto

lemma drop_duplicates_last_distinct:
  "distinct (map key (drop_duplicates_last key xs))"
proof (induction xs)
  case Nil
  show ?case by simp
next
  case (Cons x xs)
  have "key x \<notin> set (map key (drop_duplicates_last key xs))" if "key x \<notin> set (map key xs)"
    using that unfolding drop_duplicates_last_keys .
  with Cons.IH show ?case by simp
qed

lemma drop_duplicates_last_id:
  "distinct (map key xs) \<Longrightarrow> drop_duplicates_last key xs = xs"
  by (induction xs) auto

lemma find_append_cases:
  "find P (xs @ ys) = (case find P xs of None \<Rightarrow> find P ys | Some x \<Rightarrow> Some x)"
  by (induction xs) auto

lemma drop_duplicates_last_keeps_last:
  "r \<in> set (drop_duplicates_last key xs) \<Longrightarrow> last_with_key key (key r) xs = Some r"
proof (induction xs)
  case Nil
  then show ?case by simp
next
  case (Cons x xs)
  show ?case
  proof (cases "r \<in> set (drop_duplicates_last key xs)")
    case True
    from Cons.IH [OF this] show ?thesis
      by (simp add: last_with_key_def find_append_cases)
  next
    case False
    with Cons.prems have rx: "r = x" and fresh: "key x \<notin> set (map key xs)"
      by (auto split: if_splits)
    from fresh have "\<forall>y\<in>set xs. key y \<noteq> key x"
      by (auto dest: outside_image)
    then have "find (\<lambda>y. key y = key x) (rev xs) = None"
      by (simp add: find_None_iff)
    then show ?thesis
      unfolding rx by (simp add: last_with_key_def find_append_cases)
  qed
qed


lemma main_parts:
  assumes "metadata_scraper_main env t parquet = (t', parquet', results)"
  shows "results = run_batched env (load_active_etags t)"
    and "t' = update_records env 0 (changed_results results @ unchanged_results results) t"
    and "parquet' = merge_parquet parquet (new_records results)"
proof -
  note e = assms [unfolded metadata_scraper_main_def Let_def]
  show res: "results = run_batched env (load_active_etags t)"
    using e [THEN arg_cong [where f = "\<lambda>p. snd (snd p)"]] by simp
  show "t' = update_records env 0 (changed_results results @ unchanged_results results) t"
    unfolding res using e [THEN arg_cong [where f = fst]] by simp
  show "parquet' = merge_parquet parquet (new_records results)"
    unfolding res using e [THEN arg_cong [where f = "\<lambda>p. fst (snd p)"]] by simp
qed

lemma example_env_fair: "fair_completion (example_env net)"
  by (simp add: fair_completion_def example_env_def)

lemma tracked_etags_key: "distinct (map row_url tracked_etags)"
  by (simp add: tracked_etags_def)

subsection \<open>The claims about the fetch engine and the merge\<close>

text \<open>
  The theorems below speak of one run of \<open>main\<close> on a table whose URLs are distinct (the
  primary key), in an environment whose result list is a permutation of the results in
  queue order. A URL \<open>u\<close> is tracked and active when \<open>row_of t u = Some row\<close> and
  \<open>row_deleted row = 0\<close>. The attempt at which the server answers is \<open>k\<close>; the attempts
  before it raised.
\<close>

text \<open>
  Claim C3. After a run that extracted at least one record (the only case in which the
  table is written), the output table exists, no two of its rows have the same source,
  it has a row for every source of the existing rows and the new records, and each of its
  rows is the last one with its source in ingestion order (existing rows, then the new
  records in the order of the result list). When the run extracted no record, the table
  is left as it was.
\<close>

theorem merge_one_row_per_source:
  assumes fair: "fair_completion env"
    and key: "distinct (map row_url t)"
    and run: "metadata_scraper_main env t parquet = (t', parquet', results)"
  shows "(new_records results \<noteq> [] \<longrightarrow>
           (\<exists>tab. parquet' = Some tab
              \<and> distinct (map source_of tab)
              \<and> set (map source_of tab) = set (map source_of (rows_of parquet @ new_records results))
              \<and> (\<forall>row\<in>set tab.
                   last_with_key source_of (source_of row) (rows_of parquet @ new_records results) = Some row)))
       \<and> (new_records results = [] \<longrightarrow> parquet' = parquet)"
proof -
  let ?new = "new_records results"
  have p': "parquet' = merge_parquet parquet ?new" using run by (rule main_parts)
  have res: "results = run_batched env (load_active_etags t)" using run by (rule main_parts)
  have nd: "distinct (map source_of ?new)"
    unfolding res using fair load_active_etags_keys [OF key] by (rule new_records_distinct)
  have written: "\<exists>tab. parquet' = Some tab
      \<and> distinct (map source_of tab)
      \<and> set (map source_of tab) = set (map source_of (rows_of parquet @ ?new))
      \<and> (\<forall>row\<in>set tab. last_with_key source_of (source_of row) (rows_of parquet @ ?new) = Some row)"
    if ne: "?new \<noteq> []"
  proof (cases parquet)
    case None
    have tab: "parquet' = Some ?new" unfolding p' using ne None by (simp add: merge_parquet_def)
    have rows: "rows_of parquet @ ?new = ?new" using None by (simp add: rows_of_def)
    have "last_with_key source_of (source_of row) ?new = Some row" if "row \<in> set ?new" for row
    proof -
      from that have "row \<in> set (drop_duplicates_last source_of ?new)"
        by (simp only: drop_duplicates_last_id [OF nd])
      then show ?thesis by (rule drop_duplicates_last_keeps_last)
    qed
    with tab nd show ?thesis unfolding rows by blast
  next
    case (Some existing)
    let ?tab = "drop_duplicates_last source_of (existing @ ?new)"
    have tab: "parquet' = Some ?tab" unfolding p' using ne Some by (simp add: merge_parquet_def)
    have rows: "rows_of parquet @ ?new = existing @ ?new" using Some by (simp add: rows_of_def)
    have "distinct (map source_of ?tab)" by (rule drop_duplicates_last_distinct)
    moreover have "set (map source_of ?tab) = set (map source_of (existing @ ?new))"
      by (rule drop_duplicates_last_keys)
    moreover have "\<forall>row\<in>set ?tab. last_with_key source_of (source_of row) (existing @ ?new) = Some row"
      by (blast intro: drop_duplicates_last_keeps_last)
    ultimately show ?thesis using tab unfolding rows by blast
  qed
  have kept: "parquet' = parquet" if "?new = []"
    unfolding p' using that by (simp add: merge_parquet_def)
  from written kept show ?thesis by blast
qed

theorem merge_one_row_per_source_witness:
  "fair_completion (example_env net_no_etag)
   \<and> distinct (map row_url tracked_etags)
   \<and> new_records (snd (snd (metadata_scraper_main (example_env net_no_etag) tracked_etags (Some stale_parquet)))) \<noteq> []
   \<and> (\<exists>tab. fst (snd (metadata_scraper_main (example_env net_no_etag) tracked_etags (Some stale_parquet)))
               = Some tab
          \<and> distinct (map source_of tab))"
proof -
  let ?env = "example_env net_no_etag"
  let ?run = "metadata_scraper_main ?env tracked_etags (Some stale_parquet)"
  obtain t' parquet' results where run: "?run = (t', parquet', results)"
    by (metis prod_cases3)
  have "new_records (snd (snd ?run)) \<noteq> []" by code_simp
  then have ne: "new_records results \<noteq> []" by (simp add: run)
  note th = merge_one_row_per_source [OF example_env_fair tracked_etags_key run]
  from th ne have "\<exists>tab. parquet' = Some tab \<and> distinct (map source_of tab)" by blast
  then have tab: "\<exists>tab. fst (snd ?run) = Some tab \<and> distinct (map source_of tab)"
    by (simp add: run)
  have ne': "new_records (snd (snd ?run)) \<noteq> []" using ne by (simp add: run)
  show ?thesis
    by (rule conjI example_env_fair tracked_etags_key ne' tab)+
qed

text \<open>
  Claim C4, as stated, fails: a rejected fetch does change the row. The server answers
  404 for a tracked URL whose row was last checked on 2025-12-31; the result carries
  \<open>changed = False\<close>, so \<open>main\<close> treats it like an unchanged one and the row's
  last-checked timestamp becomes the time of the run.
\<close>

theorem rejected_fetch_counterexample:
  "row_of tracked_etags ''https://h/A.xml''
     = Some \<lparr>row_url = ''https://h/A.xml'', row_etag = Some ''x1'',
             row_last_checked = Some ''2025-12-31T00:00:00'', row_deleted = 0\<rparr>
   \<and> fetch_conditional (example_env net_rejects) ''https://h/A.xml'' (Some ''x1'')
     = (\<lparr>res_url = ''https://h/A.xml'', res_etag = Some ''x1'', res_changed = Some False,
         res_first_check = None, res_error = Some ''HTTP 404'', res_metadata = None\<rparr>, 1)
   \<and> row_of (fst (metadata_scraper_main (example_env net_rejects) tracked_etags None)) ''https://h/A.xml''
     = Some \<lparr>row_url = ''https://h/A.xml'', row_etag = Some ''x1'',
             row_last_checked = Some ''2026-01-01T00:00:00'', row_deleted = 0\<rparr>"
  by code_simp

text \<open>
  Claim C4, amended. When the first response for a tracked, active URL has a status of
  400 or more, the fetch returns at once (the number of requests is the number of the
  attempt that was answered) with \<open>changed = False\<close> and the error \<open>HTTP status\<close>; the
  run leaves the row's indicator and active flag as they were and overwrites its
  last-checked timestamp with the time of the update.
\<close>

theorem rejected_fetch_refreshes_last_checked:
  assumes fair: "fair_completion env"
    and key: "distinct (map row_url t)"
    and row: "row_of t u = Some row"
    and active: "row_deleted row = 0"
    and k: "1 \<le> k" "k \<le> RETRIES"
    and before: "\<forall>j. 1 \<le> j \<and> j < k \<longrightarrow>
                   (\<exists>e. session_get env u (request_headers (row_etag row)) j = Raises e)"
    and response: "session_get env u (request_headers (row_etag row)) k = Response status etag_header body"
    and rejected: "status \<ge> 400"
    and run: "metadata_scraper_main env t parquet = (t', parquet', results)"
  shows "fetch_conditional env u (row_etag row)
           = (\<lparr>res_url = u, res_etag = row_etag row, res_changed = Some False,
               res_first_check = None, res_error = Some (''HTTP '' @ str_int status),
               res_metadata = None\<rparr>, k)
       \<and> (\<exists>i. row_of t' u = Some (row\<lparr>row_last_checked := Some (now env i)\<rparr>))"
proof -
  let ?r = "\<lparr>res_url = u, res_etag = row_etag row, res_changed = Some False,
             res_first_check = None, res_error = Some (''HTTP '' @ str_int status),
             res_metadata = None\<rparr>"
  have "on_response env u (row_etag row) status etag_header body = ?r"
    using rejected by (simp add: on_response_def)
  with fetch_conditional_first_response [OF k before response]
  have f: "fetch_conditional env u (row_etag row) = (?r, k)" by simp
  then have r: "?r = fst (fetch_conditional env u (row_etag row))" by simp
  have "res_changed ?r \<noteq> None" by simp
  from run_on_active_url(3) [OF fair key row active run r this]
  obtain i where "row_of t' u = Some (row\<lparr>row_etag := res_etag ?r, row_last_checked := Some (now env i)\<rparr>)"
    by blast
  then have "row_of t' u = Some (row\<lparr>row_last_checked := Some (now env i)\<rparr>)" by simp
  with f show ?thesis by blast
qed

theorem rejected_fetch_refreshes_last_checked_witness:
  "fair_completion (example_env net_rejects)
   \<and> distinct (map row_url tracked_etags)
   \<and> row_of tracked_etags ''https://h/A.xml'' = Some tracked_row
   \<and> row_deleted tracked_row = 0
   \<and> session_get (example_env net_rejects) ''https://h/A.xml'' (request_headers (row_etag tracked_row)) 1
       = Response 404 None []
   \<and> (404::int) \<ge> 400
   \<and> snd (fetch_conditional (example_env net_rejects) ''https://h/A.xml'' (row_etag tracked_row)) = 1
   \<and> (\<exists>i. row_of (fst (metadata_scraper_main (example_env net_rejects) tracked_etags None)) ''https://h/A.xml''
          = Some (tracked_row\<lparr>row_last_checked := Some (now (example_env net_rejects) i)\<rparr>))"
proof -
  let ?env = "example_env net_rejects" and ?u = "''https://h/A.xml''"
  have row: "row_of tracked_etags ?u = Some tracked_row" by code_simp
  have active: "row_deleted tracked_row = 0" by code_simp
  have k: "(1::nat) \<le> 1" "1 \<le> RETRIES" by (simp_all add: RETRIES_def)
  have before: "\<forall>j. 1 \<le> j \<and> j < (1::nat) \<longrightarrow>
      (\<exists>e. session_get ?env ?u (request_headers (row_etag tracked_row)) j = Raises e)"
    by simp
  have response: "session_get ?env ?u (request_headers (row_etag tracked_row)) 1 = Response 404 None []"
    by (simp add: example_env_def net_rejects_def)
  have rejected: "(404::int) \<ge> 400" by simp
  obtain t' parquet' results
    where run: "metadata_scraper_main ?env tracked_etags None = (t', parquet', results)"
    by (metis prod_cases3)
  note th = rejected_fetch_refreshes_last_checked
    [OF example_env_fair tracked_etags_key row active k before response rejected run]
  have attempts: "snd (fetch_conditional ?env ?u (row_etag tracked_row)) = 1"
    using th [THEN conjunct1] by simp
  have refreshed: "\<exists>i. row_of (fst (metadata_scraper_main ?env tracked_etags None)) ?u
      = Some (tracked_row\<lparr>row_last_checked := Some (now ?env i)\<rparr>)"
    using th [THEN conjunct2] by (simp add: run)
  show ?thesis
    by (rule conjI example_env_fair tracked_etags_key row active response rejected attempts refreshed)+
qed

text \<open>
  Claim C6. When every attempt for a tracked, active URL raises, the fetch issues exactly
  \<open>RETRIES\<close> requests and returns the failure result; the run's result list holds
  exactly one result for the URL, that failure; and the URL's row is left as it was.
\<close>

theorem retry_cap_honored:
  assumes fair: "fair_completion env"
    and key: "distinct (map row_url t)"
    and row: "row_of t u = Some row"
    and active: "row_deleted row = 0"
    and down: "\<forall>k. 1 \<le> k \<and> k \<le> RETRIES \<longrightarrow>
                 (\<exists>e. session_get env u (request_headers (row_etag row)) k = Raises e)"
    and run: "metadata_scraper_main env t parquet = (t', parquet', results)"
  shows "fetch_conditional env u (row_etag row) = (failed_result u (row_etag row), RETRIES)
       \<and> filter (\<lambda>r. res_url r = u) results = [failed_result u (row_etag row)]
       \<and> row_of t' u = Some row"
proof -
  have f: "fetch_conditional env u (row_etag row) = (failed_result u (row_etag row), RETRIES)"
    using down by (rule fetch_conditional_all_raise)
  then have r: "failed_result u (row_etag row) = fst (fetch_conditional env u (row_etag row))"
    by simp
  have none: "res_changed (failed_result u (row_etag row)) = None"
    by (simp add: failed_result_def)
  note facts = run_on_active_url [OF fair key row active run r]
  from f facts(1) facts(2) [OF none] show ?thesis by blast
qed

theorem retry_cap_honored_witness:
  "fair_completion (example_env net_down)
   \<and> distinct (map row_url tracked_etags)
   \<and> row_of tracked_etags ''https://h/A.xml'' = Some tracked_row
   \<and> row_deleted tracked_row = 0
   \<and> session_get (example_env net_down) = net_down
   \<and> snd (fetch_conditional (example_env net_down) ''https://h/A.xml'' (row_etag tracked_row)) = 4
   \<and> row_of (fst (metadata_scraper_main (example_env net_down) tracked_etags None)) ''https://h/A.xml''
       = Some tracked_row"
proof -
  let ?env = "example_env net_down" and ?u = "''https://h/A.xml''" and ?row = "tracked_row"
  have row: "row_of tracked_etags ?u = Some ?row" by code_simp
  have active: "row_deleted ?row = 0" by code_simp
  have down: "\<forall>k. 1 \<le> k \<and> k \<le> RETRIES \<longrightarrow>
      (\<exists>e. session_get ?env ?u (request_headers (row_etag ?row)) k = Raises e)"
    by (simp add: example_env_def net_down_def)
  obtain t' parquet' results
    where run: "metadata_scraper_main ?env tracked_etags None = (t', parquet', results)"
    by (metis prod_cases3)
  note cap = retry_cap_honored [OF example_env_fair tracked_etags_key row active down run]
  have attempts: "snd (fetch_conditional ?env ?u (row_etag ?row)) = 4"
    using cap [THEN conjunct1] by (simp add: RETRIES_def)
  have kept: "row_of (fst (metadata_scraper_main ?env tracked_etags None)) ?u = Some ?row"
    using cap [THEN conjunct2, THEN conjunct2] by (simp add: run)
  have net: "session_get ?env = net_down" by (simp add: example_env_def)
  show ?thesis
    by (rule conjI example_env_fair tracked_etags_key row active net attempts kept)+
qed



text \<open>
  Claim C10. When the response for a tracked, active URL is neither 304 nor an error
  status (200 in particular) and has no \<open>ETag\<close> header, the result is classified as
  changed with the extracted record and a null indicator, the record is among the run's
  new records, the row's indicator is overwritten with null, and the next run loads the
  URL with a null indicator, for which the request carries no \<open>If-None-Match\<close> header.
\<close>

theorem no_etag_header_clears_indicator:
  assumes fair: "fair_completion env"
    and key: "distinct (map row_url t)"
    and row: "row_of t u = Some row"
    and active: "row_deleted row = 0"
    and k: "1 \<le> k" "k \<le> RETRIES"
    and before: "\<forall>j. 1 \<le> j \<and> j < k \<longrightarrow>
                   (\<exists>e. session_get env u (request_headers (row_etag row)) j = Raises e)"
    and response: "session_get env u (request_headers (row_etag row)) k = Response status None body"
    and ok: "status \<noteq> 304" "status < 400"
    and run: "metadata_scraper_main env t parquet = (t', parquet', results)"
  shows "fetch_conditional env u (row_etag row)
           = (\<lparr>res_url = u, res_etag = None, res_changed = Some True,
               res_first_check = None, res_error = None,
               res_metadata = Some (extract_metadata (lxml_of env) body u)\<rparr>, k)
       \<and> extract_metadata (lxml_of env) body u \<in> set (new_records results)
       \<and> (\<exists>i. row_of t' u = Some (row\<lparr>row_etag := None, row_last_checked := Some (now env i)\<rparr>))
       \<and> (u, None) \<in> set (load_active_etags t')
       \<and> request_headers None = HEADERS
       \<and> map_of (request_headers None) ''If-None-Match'' = None"
proof -
  let ?r = "\<lparr>res_url = u, res_etag = None, res_changed = Some True,
             res_first_check = None, res_error = None,
             res_metadata = Some (extract_metadata (lxml_of env) body u)\<rparr>"
  have "on_response env u (row_etag row) status None body = ?r"
    using ok by (simp add: on_response_def)
  with fetch_conditional_first_response [OF k before response]
  have f: "fetch_conditional env u (row_etag row) = (?r, k)" by simp
  then have r: "?r = fst (fetch_conditional env u (row_etag row))" by simp
  note facts = run_on_active_url [OF fair key row active run r]
  have rec: "extract_metadata (lxml_of env) body u \<in> set (new_records results)"
    by (rule facts(4)) simp_all
  have "res_changed ?r \<noteq> None" by simp
  from facts(3) [OF this]
  obtain i where "row_of t' u = Some (row\<lparr>row_etag := res_etag ?r, row_last_checked := Some (now env i)\<rparr>)"
    by blast
  then have row': "row_of t' u = Some (row\<lparr>row_etag := None, row_last_checked := Some (now env i)\<rparr>)"
    by simp
  have "t' = update_records env 0 (changed_results results @ unchanged_results results) t"
    using run by (rule main_parts)
  then have "map row_url t' = map row_url t" by (simp only: urls_update_records)
  with key have key': "distinct (map row_url t')" by simp
  have "row_deleted (row\<lparr>row_etag := None, row_last_checked := Some (now env i)\<rparr>) = 0"
    using active by simp
  from load_active_etags_item [OF key' row' this]
  have next_run: "(u, None) \<in> set (load_active_etags t')" by simp
  have h: "request_headers None = HEADERS" by (simp add: request_headers_def)
  have m: "map_of (request_headers None) ''If-None-Match'' = None"
    unfolding h by (simp add: HEADERS_def)
  from f rec row' next_run h m show ?thesis by blast
qed

theorem no_etag_header_clears_indicator_witness:
  "fair_completion (example_env net_no_etag)
   \<and> distinct (map row_url tracked_etags)
   \<and> row_of tracked_etags ''https://h/A.xml'' = Some tracked_row
   \<and> row_deleted tracked_row = 0
   \<and> session_get (example_env net_no_etag) ''https://h/A.xml'' (request_headers (row_etag tracked_row)) 1
       = Response 200 None ''<doc/>''
   \<and> (200::int) \<noteq> 304 \<and> (200::int) < 400
   \<and> (''https://h/A.xml'', None)
       \<in> set (load_active_etags (fst (metadata_scraper_main (example_env net_no_etag) tracked_etags None)))"
proof -
  let ?env = "example_env net_no_etag" and ?u = "''https://h/A.xml''"
  have row: "row_of tracked_etags ?u = Some tracked_row" by code_simp
  have active: "row_deleted tracked_row = 0" by code_simp
  have k: "(1::nat) \<le> 1" "1 \<le> RETRIES" by (simp_all add: RETRIES_def)
  have before: "\<forall>j. 1 \<le> j \<and> j < (1::nat) \<longrightarrow>
      (\<exists>e. session_get ?env ?u (request_headers (row_etag tracked_row)) j = Raises e)"
    by simp
  have response: "session_get ?env ?u (request_headers (row_etag tracked_row)) 1 = Response 200 None ''<doc/>''"
    by (simp add: example_env_def net_no_etag_def)
  have ok: "(200::int) \<noteq> 304" "(200::int) < 400" by simp_all
  obtain t' parquet' results
    where run: "metadata_scraper_main ?env tracked_etags None = (t', parquet', results)"
    by (metis prod_cases3)
  note th = no_etag_header_clears_indicator
    [OF example_env_fair tracked_etags_key row active k before response ok run]
  have next_run: "(?u, None) \<in> set (load_active_etags (fst (metadata_scraper_main ?env tracked_etags None)))"
    using th [THEN conjunct2, THEN conjunct2, THEN conjunct2, THEN conjunct1] by (simp add: run)
  show ?thesis
    by (rule conjI example_env_fair tracked_etags_key row active response ok next_run)+
qed

end

